theory Spec2Isabelle
  imports Complex_Main "HOL-Library.Log_Nat"
begin

section \<open>Errors\<close>

text \<open>
  The Python exceptions that the modelled functions can raise.  Every \<open>raise\<close> of the
  source (and of the library calls it makes) is a value \<open>Inl e\<close> of the result.
\<close>

datatype error = ValueError | TypeError | InvalidOperation

definition bind_err :: "error + 'a \<Rightarrow> ('a \<Rightarrow> error + 'b) \<Rightarrow> error + 'b" where
  "bind_err m f = (case m of Inl e \<Rightarrow> Inl e | Inr x \<Rightarrow> f x)"

section \<open>The trajectory table (so6.py)\<close>

text \<open>
  One row of the SO6 data frame, with the columns that \<open>SO6.parse_so6\<close> keeps.  Times
  are \<open>datetime\<close> values, modelled as integer microseconds since the epoch (the
  resolution of a Python \<open>datetime\<close>), that is the values after \<open>to_datetime\<close>.
  Coordinates and altitudes are the columns' floats read as the rationals they denote.
\<close>

type_synonym datetime = int

type_synonym coord = "rat \<times> rat \<times> rat"

record segment =
  flight_id :: int
  callsign :: string
  origin :: string
  destination :: string
  aircraft :: string
  time1 :: datetime
  time2 :: datetime
  lon1 :: rat
  lat1 :: rat
  alt1 :: rat
  lon2 :: rat
  lat2 :: rat
  alt2 :: rat

text \<open>The data frame of an \<open>SO6\<close> (and of a \<open>Flight\<close>) is the list of its rows, in order.\<close>

type_synonym dataframe = "segment list"

text \<open>\<open>after\<close> of \<open>between\<close> is a time or a \<open>timedelta\<close> (microseconds).\<close>

datatype time_or_delta = At datetime | Delta int

subsection \<open>\<open>SO6.flight_ids\<close>, \<open>SO6.callsigns\<close>, \<open>SO6.__len__\<close>\<close>

definition flight_ids :: "dataframe \<Rightarrow> int set" where
  "flight_ids d = set (map flight_id d)"

definition callsigns :: "dataframe \<Rightarrow> string set" where
  "callsigns d = set (map callsign d)"

definition so6_len :: "dataframe \<Rightarrow> nat" where
  "so6_len d = card (flight_ids d)"

subsection \<open>\<open>SO6.at\<close>, \<open>SO6.between\<close>, \<open>SO6.select\<close>\<close>

definition so6_at :: "dataframe \<Rightarrow> datetime \<Rightarrow> dataframe" where
  "so6_at d t = filter (\<lambda>s. time1 s \<le> t \<and> time2 s > t) d"

definition resolve_after :: "datetime \<Rightarrow> time_or_delta \<Rightarrow> datetime" where
  "resolve_after before after = (case after of Delta dt \<Rightarrow> before + dt | At a \<Rightarrow> a)"

definition so6_between :: "dataframe \<Rightarrow> datetime \<Rightarrow> time_or_delta \<Rightarrow> dataframe" where
  "so6_between d before after =
     (let after' = resolve_after before after
      in filter (\<lambda>s. time1 s \<le> after' \<and> time2 s \<ge> before) d)"

definition so6_select :: "dataframe \<Rightarrow> string set \<Rightarrow> dataframe" where
  "so6_select d query = filter (\<lambda>s. callsign s \<in> query) d"

subsection \<open>\<open>groupby('flight_id').filter\<close>\<close>

text \<open>
  \<open>groupby('flight_id')\<close> splits the rows by flight identifier, keeping the row order in
  each group; \<open>filter f\<close> keeps, in the order of the table, the rows of the groups on which
  \<open>f\<close> holds.
\<close>

definition get_group :: "dataframe \<Rightarrow> int \<Rightarrow> dataframe" where
  "get_group d fid = filter (\<lambda>s. flight_id s = fid) d"

definition groupby_filter :: "(dataframe \<Rightarrow> bool) \<Rightarrow> dataframe \<Rightarrow> dataframe" where
  "groupby_filter f d = filter (\<lambda>s. f (get_group d (flight_id s))) d"


subsection \<open>\<open>SO6.inside_bbox\<close>\<close>

text \<open>
  \<open>Decimal(x).quantize(Decimal('0.00'), rounding=r)\<close>.  \<open>Decimal(x)\<close> of a float is
  exact, so the input is the rational the float denotes.  The result is a decimal with
  exponent \<open>-2\<close>; the model returns its coefficient, in hundredths.  In Python's
  \<open>decimal\<close> module \<open>ROUND_DOWN\<close> rounds towards zero and \<open>ROUND_UP\<close> rounds away
  from zero.  Under the default context (28 digits) \<open>quantize\<close> signals
  \<open>InvalidOperation\<close> when the result's coefficient would have more than 28 digits.
\<close>

datatype rounding = ROUND_DOWN | ROUND_UP

fun rescale :: "rounding \<Rightarrow> rat \<Rightarrow> int" where
  "rescale ROUND_DOWN x = (if 0 \<le> x then \<lfloor>x * 100\<rfloor> else \<lceil>x * 100\<rceil>)"
| "rescale ROUND_UP x = (if 0 \<le> x then \<lceil>x * 100\<rceil> else \<lfloor>x * 100\<rfloor>)"

definition quantize :: "rounding \<Rightarrow> rat \<Rightarrow> error + int" where
  "quantize r x =
     (let q = rescale r x
      in if 10 ^ 28 \<le> \<bar>q\<bar> then Inl InvalidOperation else Inr q)"

text \<open>The number a quantized decimal denotes (its text is what the query is built from).\<close>

definition decimal_value :: "int \<Rightarrow> rat" where
  "decimal_value q = of_int q / 100"

text \<open>
  The four edges as \<open>inside_bbox\<close> rounds them, in the order of the source: west down,
  east up, south down, north up.  The result keeps the order (west, south, east, north).
\<close>

definition rounded_bounds :: "rat \<times> rat \<times> rat \<times> rat \<Rightarrow> error + int \<times> int \<times> int \<times> int" where
  "rounded_bounds bounds =
     (case bounds of (west, south, east, north) \<Rightarrow>
        bind_err (quantize ROUND_DOWN west) (\<lambda>west'.
        bind_err (quantize ROUND_UP east) (\<lambda>east'.
        bind_err (quantize ROUND_DOWN south) (\<lambda>south'.
        bind_err (quantize ROUND_UP north) (\<lambda>north'.
          Inr (west', south', east', north'))))))"

text \<open>
  The edges reach the query as text, and the query reads a number in its text as a
  Python float: the double nearest to the decimal, ties to the even mantissa.
  \<open>float_of\<close> is that rounding on a rational: the mantissa has 53 bits, the exponent
  is not below that of the subnormal numbers; overflow to infinity is left out, an edge
  that \<open>quantize\<close> accepts is far below it.
\<close>

definition round_half_even :: "rat \<Rightarrow> int" where
  "round_half_even r =
     (let f = \<lfloor>r\<rfloor>; d = r - of_int f
      in if d < 1 / 2 then f else if 1 / 2 < d then f + 1 else if even f then f else f + 1)"

definition pow2 :: "int \<Rightarrow> rat" where
  "pow2 e = (if 0 \<le> e then 2 ^ nat e else 1 / 2 ^ nat (- e))"

definition float_of :: "rat \<Rightarrow> rat" where
  "float_of x =
     (if x = 0 then 0
      else
        let a = \<bar>x\<bar>;
            k = (case quotient_of a of (n, d) \<Rightarrow> bitlen n - bitlen d);
            lg = (if pow2 k \<le> a then k else k - 1);
            e = max (lg - 52) (- 1074);
            m = round_half_even (a / pow2 e)
        in sgn x * of_int m * pow2 e)"

text \<open>The float that the query reads for a quantized edge.\<close>

definition query_literal :: "int \<Rightarrow> rat" where
  "query_literal q = float_of (decimal_value q)"

text \<open>
  The query \<open>"{0} <= lon1 <= {2} & {1} <= lat1 <= {3}"\<close>, evaluated on one row with the
  four quantized edges: the columns are compared with the floats read from the text.
\<close>

definition bbox_query :: "int \<times> int \<times> int \<times> int \<Rightarrow> segment \<Rightarrow> bool" where
  "bbox_query box s =
     (case box of (west, south, east, north) \<Rightarrow>
        query_literal west \<le> lon1 s \<and> lon1 s \<le> query_literal east \<and>
        query_literal south \<le> lat1 s \<and> lat1 s \<le> query_literal north)"

text \<open>
  \<open>data.iloc[0].callsign in callsigns\<close> on a group.  A group of \<open>groupby\<close> is never
  empty; the first case is there only to make the function total.
\<close>

fun first_callsign_in :: "string set \<Rightarrow> dataframe \<Rightarrow> bool" where
  "first_callsign_in cs [] = False"
| "first_callsign_in cs (s # rest) = (callsign s \<in> cs)"

text \<open>
  \<open>inside_bbox\<close> on a tuple of bounds (a \<open>Sector\<close> or a geometry is first replaced by the
  bounds of its footprint, which the geometry library computes).
\<close>

definition inside_bbox :: "dataframe \<Rightarrow> rat \<times> rat \<times> rat \<times> rat \<Rightarrow> error + dataframe" where
  "inside_bbox d bounds =
     bind_err (rounded_bounds bounds) (\<lambda>box.
       let data = filter (bbox_query box) d;
           cs = callsigns data
       in Inr (groupby_filter (first_callsign_in cs) d))"




section \<open>One flight (so6.py, class Flight)\<close>

text \<open>A \<open>Flight\<close> holds the rows of one flight; \<open>coords\<close> and \<open>times\<close> are its generators
  (\<open>flight_times\<close> here).\<close>

definition p1 :: "segment \<Rightarrow> coord" where
  "p1 s = (lon1 s, lat1 s, alt1 s)"

definition p2 :: "segment \<Rightarrow> coord" where
  "p2 s = (lon2 s, lat2 s, alt2 s)"

definition coords :: "dataframe \<Rightarrow> coord list" where
  "coords f = (if f = [] then [] else map p1 f @ [p2 (last f)])"

definition flight_times :: "dataframe \<Rightarrow> datetime list" where
  "flight_times f = (if f = [] then [] else map time1 f @ [time2 (last f)])"

text \<open>\<open>start\<close> and \<open>stop\<close>: \<open>min\<close> and \<open>max\<close> of the times; both raise on no times.\<close>

definition start :: "dataframe \<Rightarrow> error + datetime" where
  "start f = (if flight_times f = [] then Inl ValueError else Inr (Min (set (flight_times f))))"

definition stop :: "dataframe \<Rightarrow> error + datetime" where
  "stop f = (if flight_times f = [] then Inl ValueError else Inr (Max (set (flight_times f))))"

text \<open>
  \<open>Flight.at\<close> evaluates \<open>scipy.interpolate.interp1d\<close> over the flight's times and
  coordinates.  The numerical kernel is a parameter \<open>interp\<close> of the model (knots and a
  time to a point); what the model fixes is the library's bounds check: a time outside
  the range of the knots raises \<open>ValueError\<close>, and so does stacking no times at all.
\<close>

type_synonym interpolator = "(datetime \<times> coord) list \<Rightarrow> datetime \<Rightarrow> coord"

definition flight_at :: "interpolator \<Rightarrow> dataframe \<Rightarrow> datetime \<Rightarrow> error + coord" where
  "flight_at interp f t =
     (let ts = flight_times f
      in if ts = [] then Inl ValueError
         else if t < Min (set ts) \<or> Max (set ts) < t then Inl ValueError
         else Inr (interp (zip ts (coords f)) t))"

text \<open>Exact piecewise linear interpolation over knots in time order, as an instance.\<close>

definition lerp :: "datetime \<Rightarrow> coord \<Rightarrow> datetime \<Rightarrow> coord \<Rightarrow> datetime \<Rightarrow> coord" where
  "lerp ta a tb b t =
     (case (a, b) of ((x1, y1, z1), (x2, y2, z2)) \<Rightarrow>
        let w = of_int (t - ta) / of_int (tb - ta)
        in (x1 + w * (x2 - x1), y1 + w * (y2 - y1), z1 + w * (z2 - z1)))"

fun linear_interp :: interpolator where
  "linear_interp [] t = (0, 0, 0)"
| "linear_interp [(ta, a)] t = a"
| "linear_interp ((ta, a) # (tb, b) # rest) t =
     (if t \<le> tb \<or> rest = [] then lerp ta a tb b t else linear_interp ((tb, b) # rest) t)"

text \<open>
  The frame that \<open>Flight.between\<close> builds: one row per pair of consecutive points, the
  two lists of times assigned as columns (\<open>assign\<close> raises when a list has not one entry
  per row), and the metadata of the flight's first row.
\<close>

fun make_rows :: "segment \<Rightarrow> (coord \<times> coord) list \<Rightarrow> datetime list \<Rightarrow> datetime list \<Rightarrow> dataframe" where
  "make_rows m ((a, b) # ps) (ta # tas) (tb # tbs) =
     m\<lparr>time1 := ta, time2 := tb,
       lon1 := fst a, lat1 := fst (snd a), alt1 := snd (snd a),
       lon2 := fst b, lat2 := fst (snd b), alt2 := snd (snd b)\<rparr> # make_rows m ps tas tbs"
| "make_rows m _ _ _ = []"

definition make_frame ::
    "segment \<Rightarrow> coord list \<Rightarrow> datetime list \<Rightarrow> datetime list \<Rightarrow> error + dataframe" where
  "make_frame m new_data t1 t2 =
     (let pairs = zip (butlast new_data) (tl new_data)
      in if length t1 \<noteq> length pairs \<or> length t2 \<noteq> length pairs then Inl ValueError
         else Inr (make_rows m pairs t1 t2))"

text \<open>
  The two boundary steps of \<open>Flight.between\<close>, on the points selected so far and the
  two lists of times.  At the start: when \<open>before\<close> is later than the first time,
  \<open>self.at(before)\<close> is stacked in front; else the first entry of both lists of times is
  dropped.  At the end: when \<open>after\<close> is earlier than the last time, \<open>self.at(after)\<close>
  is stacked behind; else the last entry of both lists is dropped.
\<close>

definition stack_before ::
    "interpolator \<Rightarrow> dataframe \<Rightarrow> datetime \<Rightarrow> coord list \<times> datetime list \<times> datetime list \<Rightarrow>
     error + coord list \<times> datetime list \<times> datetime list" where
  "stack_before interp f before x =
     (case x of (new_data, time1', time2') \<Rightarrow>
        if before > hd (flight_times f)
        then bind_err (flight_at interp f before) (\<lambda>p. Inr (p # new_data, time1', time2'))
        else Inr (new_data, tl time1', tl time2'))"

definition stack_after ::
    "interpolator \<Rightarrow> dataframe \<Rightarrow> datetime \<Rightarrow> coord list \<times> datetime list \<times> datetime list \<Rightarrow>
     error + coord list \<times> datetime list \<times> datetime list" where
  "stack_after interp f after x =
     (case x of (new_data, time1', time2') \<Rightarrow>
        if after < last (flight_times f)
        then bind_err (flight_at interp f after) (\<lambda>p. Inr (new_data @ [p], time1', time2'))
        else Inr (new_data, butlast time1', butlast time2'))"

text \<open>
  \<open>Flight.between\<close>.  \<open>np.stack\<close> of no times raises \<open>ValueError\<close>; with rows, the
  times are not empty, so \<open>t[0]\<close> and \<open>t[-1]\<close> exist.  The points and times strictly
  between \<open>before\<close> and \<open>after\<close> are selected, the two boundary steps follow, and the
  frame is built with the metadata of the first row.
\<close>

definition flight_between ::
    "interpolator \<Rightarrow> dataframe \<Rightarrow> datetime \<Rightarrow> time_or_delta \<Rightarrow> error + dataframe" where
  "flight_between interp f before after =
     (let after' = resolve_after before after
      in case f of [] \<Rightarrow> Inl ValueError
         | m # _ \<Rightarrow>
          let index = filter (\<lambda>(ti, c). before < ti \<and> ti < after')
                        (zip (flight_times f) (coords f));
              new_data = map snd index;
              time1' = before # map fst index;
              time2' = map fst index @ [after']
          in bind_err (stack_before interp f before (new_data, time1', time2')) (\<lambda>x.
             bind_err (stack_after interp f after' x) (\<lambda>(new_data, time1', time2').
               make_frame m new_data time1' time2')))"

section \<open>Sectors (airac.py)\<close>

text \<open>
  An altitude limit is a float, possibly infinite: \<open>float("-inf")\<close>, a finite value, or
  \<open>float("inf")\<close>.
\<close>

datatype ext = MInf | Fin rat | PInf

instantiation ext :: linorder
begin

fun less_eq_ext :: "ext \<Rightarrow> ext \<Rightarrow> bool" where
  "less_eq_ext MInf b = True"
| "less_eq_ext (Fin x) MInf = False"
| "less_eq_ext (Fin x) (Fin y) = (x \<le> y)"
| "less_eq_ext (Fin x) PInf = True"
| "less_eq_ext PInf PInf = True"
| "less_eq_ext PInf b = False"

definition less_ext :: "ext \<Rightarrow> ext \<Rightarrow> bool" where
  "less_ext a b = (a \<le> b \<and> \<not> b \<le> a)"

instance
proof
  fix a b c :: ext
  show "(a < b) = (a \<le> b \<and> \<not> b \<le> a)" by (simp add: less_ext_def)
  show "a \<le> a" by (cases a) simp_all
  show "a \<le> b \<Longrightarrow> b \<le> c \<Longrightarrow> a \<le> c" by (cases a; cases b; cases c) simp_all
  show "a \<le> b \<Longrightarrow> b \<le> a \<Longrightarrow> a = b" by (cases a; cases b) simp_all
  show "a \<le> b \<or> b \<le> a" by (cases a; cases b) auto
qed

end

text \<open>\<open>100 * x\<close> on such a float.\<close>

fun times100 :: "ext \<Rightarrow> ext" where
  "times100 MInf = MInf"
| "times100 (Fin x) = Fin (100 * x)"
| "times100 PInf = PInf"

text \<open>
  \<open>ExtrudedPolygon\<close>: a footprint with a lower and an upper limit.  The type of the
  limits is a parameter: \<open>ext\<close> in a sector, \<open>ext option\<close> in the lists that
  \<open>append_coords\<close> builds (it stores \<open>None\<close> limits).
\<close>

record ('p, 'a) extruded_polygon =
  polygon :: 'p
  lower :: 'a
  upper :: 'a

record 'p sector =
  name :: string
  area :: "('p, ext) extruded_polygon list"
  sector_type :: "string option"

subsection \<open>\<open>Flight.intersects\<close> and \<open>SO6.intersects\<close>\<close>

text \<open>
  What \<open>linestring.intersection(polygon)\<close> returns: a geometry with one coordinate
  sequence, or a multipart geometry, a sequence of such parts.  The intersection itself
  is the geometry library's; it is a parameter \<open>isect\<close> of the model.
\<close>

datatype geometry = Simple "coord list" | Multipart "coord list list"

fun is_empty :: "geometry \<Rightarrow> bool" where
  "is_empty (Simple cs) = (cs = [])"
| "is_empty (Multipart ps) = list_all (\<lambda>p. p = []) ps"

text \<open>\<open>100*layer.lower < x[2] < 100*layer.upper\<close>.\<close>

definition in_layer :: "('p, ext) extruded_polygon \<Rightarrow> coord \<Rightarrow> bool" where
  "in_layer layer x =
     (times100 (lower layer) < Fin (snd (snd x)) \<and> Fin (snd (snd x)) < times100 (upper layer))"

text \<open>The loop over the parts; it is left with \<open>True\<close> at the first part with a hit.\<close>

fun parts_hit :: "('p, ext) extruded_polygon \<Rightarrow> coord list list \<Rightarrow> bool" where
  "parts_hit layer [] = False"
| "parts_hit layer (part # rest) =
     (if list_ex (in_layer layer) part then True else parts_hit layer rest)"

fun flight_intersects ::
    "(coord list \<Rightarrow> 'p \<Rightarrow> geometry) \<Rightarrow> dataframe \<Rightarrow> ('p, ext) extruded_polygon list \<Rightarrow> bool" where
  "flight_intersects isect f [] = False"
| "flight_intersects isect f (layer # rest) =
     (let ix = isect (coords f) (polygon layer)
      in if \<not> is_empty ix then
           (case ix of
              Multipart parts \<Rightarrow>
                if parts_hit layer parts then True else flight_intersects isect f rest
            | Simple cs \<Rightarrow>
                if list_ex (in_layer layer) cs then True else flight_intersects isect f rest)
         else flight_intersects isect f rest)"

definition so6_intersects ::
    "(coord list \<Rightarrow> 'p \<Rightarrow> geometry) \<Rightarrow> dataframe \<Rightarrow> 'p sector \<Rightarrow> dataframe" where
  "so6_intersects isect d s = groupby_filter (\<lambda>g. flight_intersects isect g (area s)) d"




subsection \<open>\<open>cascaded_union_with_alt\<close>\<close>

text \<open>
  A footprint is the set of the points it covers: \<open>cascaded_union\<close> is the union of the
  sets, and \<open>equals\<close> is equality of the sets.
\<close>

definition cascaded_union :: "'p set list \<Rightarrow> 'p set" where
  "cascaded_union ps = \<Union> (set ps)"

text \<open>The set of all lower and upper limits, \<open>None\<close> among them when a band has one.\<close>

definition altitudes :: "('p set, ext option) extruded_polygon list \<Rightarrow> ext option list" where
  "altitudes polyalt = remdups (concat (map (\<lambda>b. [lower b, upper b]) polyalt))"

text \<open>\<open>low_ <= low <= up_ and low_ <= up <= up_\<close>, on limits that are numbers.\<close>

definition matches :: "ext \<Rightarrow> ext \<Rightarrow> ('p set, ext option) extruded_polygon \<Rightarrow> bool" where
  "matches low up b =
     (case (lower b, upper b) of
        (Some low', Some up') \<Rightarrow> low' \<le> low \<and> low \<le> up' \<and> low' \<le> up \<and> up \<le> up'
      | _ \<Rightarrow> False)"

text \<open>One turn of the loop over \<open>zip(slices, slices[1:])\<close>.\<close>

fun slice_step ::
    "('p set, ext option) extruded_polygon list \<Rightarrow> ('p set, ext) extruded_polygon list \<Rightarrow>
     ext \<times> ext \<Rightarrow> ('p set, ext) extruded_polygon list" where
  "slice_step polyalt results (low, up) =
     (let matched_poly = map polygon (filter (matches low up) polyalt);
          new_poly = \<lparr>polygon = cascaded_union matched_poly, lower = low, upper = up\<rparr>
      in if results \<noteq> [] \<and> polygon new_poly = polygon (last results)
         then butlast results @
                [\<lparr>polygon = polygon new_poly, lower = lower (last results), upper = up\<rparr>]
         else results @ [new_poly])"

text \<open>
  \<open>sorted(altitudes)\<close> compares the limits: with \<open>None\<close> and anything else in the set it
  raises \<open>TypeError\<close>; \<open>None\<close> alone is the case the function treats apart.
\<close>

definition cascaded_union_with_alt ::
    "('p set, ext option) extruded_polygon list \<Rightarrow> error + ('p set, ext) extruded_polygon list" where
  "cascaded_union_with_alt polyalt =
     (let alts = altitudes polyalt
      in if alts = [None] then
           Inr [\<lparr>polygon = cascaded_union (map polygon polyalt), lower = MInf, upper = PInf\<rparr>]
         else if None \<in> set alts then Inl TypeError
         else
           let slices = sort (concat (map (\<lambda>a. case a of None \<Rightarrow> [] | Some x \<Rightarrow> [x]) alts))
           in Inr (foldl (slice_step polyalt) [] (zip slices (tl slices))))"

text \<open>The union of the footprints of a list of bands.\<close>

definition footprint :: "('p set, 'a) extruded_polygon list \<Rightarrow> 'p set" where
  "footprint bands = \<Union> (set (map polygon bands))"

text \<open>
  Bands in ascending altitude order, no two overlapping in the interior of the altitude
  dimension: every band has its lower limit below its upper limit, and of any two bands
  the earlier one ends no higher than the later one starts.
\<close>

definition ascending_disjoint :: "('p, ext) extruded_polygon list \<Rightarrow> bool" where
  "ascending_disjoint bands =
     (sorted_wrt (\<lambda>b c. upper b \<le> lower c) bands \<and> list_all (\<lambda>b. lower b < upper b) bands)"

text \<open>
  An input band that spans some altitude: numeric limits with the lower one below the
  upper one, or no limits at all.
\<close>

definition proper_band :: "('p set, ext option) extruded_polygon \<Rightarrow> bool" where
  "proper_band b =
     (case (lower b, upper b) of
        (Some l, Some u) \<Rightarrow> l < u
      | (None, None) \<Rightarrow> True
      | _ \<Rightarrow> False)"

text \<open>
  The shape of \<open>zip(slices, slices[1:])\<close> for sorted distinct slices: each pair starts
  where the one before ended, and ends higher.
\<close>

fun pair_chain :: "ext \<Rightarrow> (ext \<times> ext) list \<Rightarrow> bool" where
  "pair_chain u [] = True"
| "pair_chain u ((a, b) # ps) = (a = u \<and> a < b \<and> pair_chain b ps)"

subsection \<open>The altitude limits in \<open>SectorParser.make_polygon\<close>\<close>

text \<open>
  An XML element, as far as the limits read it: its \<open>text\<close> attribute, which is \<open>None\<close>
  for an element without character data.  \<open>block.find\<close> gives an element or \<open>None\<close>.
\<close>

record element =
  elem_text :: "string option"

definition is_digit :: "char \<Rightarrow> bool" where
  "is_digit c = (c \<in> set ''0123456789'')"

text \<open>\<open>re.match("\d{3}", s)\<close>: the string starts with three digits.\<close>

fun re_match_d3 :: "string \<Rightarrow> bool" where
  "re_match_d3 (a # b # c # rest) = (is_digit a \<and> is_digit b \<and> is_digit c)"
| "re_match_d3 s = False"

text \<open>
  \<open>float(e.text) if e is not None and re.match("\d{3}", e.text) else default\<close>.
  \<open>re.match\<close> raises \<open>TypeError\<close> on \<open>None\<close>.  Python's \<open>float\<close> is a parameter: it
  gives a float or raises \<open>ValueError\<close>.
\<close>

definition limit_of :: "(string \<Rightarrow> error + ext) \<Rightarrow> ext \<Rightarrow> element option \<Rightarrow> error + ext" where
  "limit_of py_float dflt e =
     (case e of
        None \<Rightarrow> Inr dflt
      | Some el \<Rightarrow>
          (case elem_text el of
             None \<Rightarrow> Inl TypeError
           | Some s \<Rightarrow> if re_match_d3 s then py_float s else Inr dflt))"

definition upper_limit :: "(string \<Rightarrow> error + ext) \<Rightarrow> element option \<Rightarrow> error + ext" where
  "upper_limit py_float e = limit_of py_float PInf e"

definition lower_limit :: "(string \<Rightarrow> error + ext) \<Rightarrow> element option \<Rightarrow> error + ext" where
  "lower_limit py_float e = limit_of py_float MInf e"

section \<open>Loading a file (\<open>SO6.parse_file\<close>)\<close>

text \<open>\<open>str.split(sep)\<close> with a one-character separator.\<close>

fun split :: "char \<Rightarrow> string \<Rightarrow> string list" where
  "split c [] = [[]]"
| "split c (x # xs) =
     (if x = c then [] # split c xs
      else (case split c xs of [] \<Rightarrow> [[x]] | p # ps \<Rightarrow> (x # p) # ps))"

text \<open>
  \<open>Path(filename).name\<close> on a POSIX path: the last component, where empty components
  and \<open>.\<close> components do not count; the empty string when there is none.
\<close>

definition path_name :: "string \<Rightarrow> string" where
  "path_name filename =
     (case rev (filter (\<lambda>p. p \<noteq> [] \<and> p \<noteq> ''.'') (split (CHR ''/'') filename)) of
        [] \<Rightarrow> []
      | n # _ \<Rightarrow> n)"

text \<open>
  \<open>PurePath.suffixes\<close>: no suffix for a name that ends with a dot; else the name
  without its leading dots is split at the dots, and every piece but the first is a
  suffix, written with its dot.
\<close>

definition lstrip_dots :: "string \<Rightarrow> string" where
  "lstrip_dots s = dropWhile (\<lambda>c. c = CHR ''.'') s"

definition endswith_dot :: "string \<Rightarrow> bool" where
  "endswith_dot s = (case rev s of [] \<Rightarrow> False | c # _ \<Rightarrow> c = CHR ''.'')"

definition suffixes :: "string \<Rightarrow> string list" where
  "suffixes n =
     (if endswith_dot n then []
      else map (\<lambda>s. CHR ''.'' # s) (tl (split (CHR ''.'') (lstrip_dots n))))"

text \<open>The three loaders; \<open>parse_file\<close> returns what the one it selects returns.\<close>

datatype loader = Parse_pkl | Parse_so6_7z | Parse_so6

definition parse_file :: "string \<Rightarrow> error + loader" where
  "parse_file filename =
     (let sfx = suffixes (path_name filename)
      in if sfx = [''.pkl''] then Inr Parse_pkl
         else if sfx = [''.so6'', ''.7z''] then Inr Parse_so6_7z
         else if sfx = [''.so6''] then Inr Parse_so6
         else Inl ValueError)"

text \<open>
  The ordinary extension of a file name, for comparison (\<open>PurePath.suffix\<close>,
  \<open>os.path.splitext\<close>): the name from its last dot on, when that dot is neither the
  first nor the last character of the name; else none.
\<close>

definition extension_spec :: "string \<Rightarrow> string" where
  "extension_spec n =
     (let after = rev (takeWhile (\<lambda>c. c \<noteq> CHR ''.'') (rev n))
      in if CHR ''.'' \<notin> set n \<or> after = [] \<or> Suc (length after) = length n then []
         else CHR ''.'' # after)"

text \<open>
  A file name that is, leading dots aside, a stem without dots, not empty, followed by
  the given suffixes and nothing else.
\<close>

definition stem_with :: "string \<Rightarrow> string \<Rightarrow> bool" where
  "stem_with ext n =
     (\<exists>dots stem. n = dots @ stem @ ext \<and> set dots \<subseteq> {CHR ''.''} \<and>
                  stem \<noteq> [] \<and> CHR ''.'' \<notin> set stem)"

section \<open>Example data\<close>

text \<open>A row with the given flight, callsign, times and end points, for the examples.\<close>

definition row :: "int \<Rightarrow> string \<Rightarrow> datetime \<Rightarrow> datetime \<Rightarrow> coord \<Rightarrow> coord \<Rightarrow> segment" where
  "row fid cs ta tb a b =
     \<lparr>flight_id = fid, callsign = cs, origin = ''LFBO'', destination = ''LFPO'',
      aircraft = ''A320'', time1 = ta, time2 = tb,
      lon1 = fst a, lat1 = fst (snd a), alt1 = snd (snd a),
      lon2 = fst b, lat2 = fst (snd b), alt2 = snd (snd b)\<rparr>"

section \<open>The trajectory table: length and time filters\<close>

lemma so6_len_remdups: "so6_len d = length (remdups (map flight_id d))"
  unfolding so6_len_def flight_ids_def by (rule card_set)

text \<open>
  Claim C10.  The length of a trajectory table is the number of distinct flight
  identifiers that occur in it, not the number of its rows: it is at most the number of
  rows, and a copy of a row of the table, put anywhere in it, leaves the length as it is.
\<close>

theorem so6_len_counts_flights:
  "so6_len (xs @ ys) = card {fid. \<exists>s \<in> set (xs @ ys). flight_id s = fid} \<and>
   so6_len (xs @ ys) \<le> length (xs @ ys) \<and>
   (s \<in> set (xs @ ys) \<longrightarrow> so6_len (xs @ s # ys) = so6_len (xs @ ys))"
proof (intro conjI impI)
  have "flight_ids (xs @ ys) = {fid. \<exists>s \<in> set (xs @ ys). flight_id s = fid}"
    by (auto simp: flight_ids_def)
  then show "so6_len (xs @ ys) = card {fid. \<exists>s \<in> set (xs @ ys). flight_id s = fid}"
    by (simp only: so6_len_def)
next
  have "length (remdups (map flight_id (xs @ ys))) \<le> length (map flight_id (xs @ ys))"
    by (rule length_remdups_leq)
  then show "so6_len (xs @ ys) \<le> length (xs @ ys)"
    by (simp add: so6_len_remdups)
next
  assume "s \<in> set (xs @ ys)"
  then have "flight_ids (xs @ s # ys) = flight_ids (xs @ ys)"
    by (auto simp: flight_ids_def)
  then show "so6_len (xs @ s # ys) = so6_len (xs @ ys)"
    by (simp only: so6_len_def)
qed

theorem so6_len_counts_flights_witness:
  "so6_len ([row 1 ''AFR1'' 0 5 (0, 0, 0) (1, 1, 0)] @
            row 1 ''AFR1'' 0 5 (0, 0, 0) (1, 1, 0) # [row 2 ''BAW2'' 0 5 (0, 0, 0) (1, 1, 0)]) =
   so6_len ([row 1 ''AFR1'' 0 5 (0, 0, 0) (1, 1, 0)] @ [row 2 ''BAW2'' 0 5 (0, 0, 0) (1, 1, 0)]) \<and>
   so6_len ([row 1 ''AFR1'' 0 5 (0, 0, 0) (1, 1, 0)] @ [row 2 ''BAW2'' 0 5 (0, 0, 0) (1, 1, 0)]) = 2"
  using so6_len_counts_flights
    [of "[row 1 ''AFR1'' 0 5 (0, 0, 0) (1, 1, 0)]" "[row 2 ''BAW2'' 0 5 (0, 0, 0) (1, 1, 0)]"
        "row 1 ''AFR1'' 0 5 (0, 0, 0) (1, 1, 0)"]
  by (simp add: so6_len_remdups row_def)

text \<open>
  Claim C3, as the code has it.  \<open>at(t)\<close> keeps exactly the rows with
  \<open>time1 \<le> t < time2\<close>; \<open>between(t, t)\<close> keeps exactly the rows with
  \<open>time1 \<le> t \<le> time2\<close>.  So \<open>between(t, t)\<close> applied to the result of \<open>at(t)\<close> gives
  that result back, while on the table itself \<open>between(t, t)\<close> keeps, beyond the rows of
  \<open>at(t)\<close>, the rows that end at \<open>t\<close>.
\<close>

theorem so6_at_then_between:
  "so6_at d t = filter (\<lambda>s. time1 s \<le> t \<and> t < time2 s) d \<and>
   so6_between d t (At t) = filter (\<lambda>s. time1 s \<le> t \<and> t \<le> time2 s) d \<and>
   so6_between (so6_at d t) t (At t) = so6_at d t \<and>
   set (so6_at d t) = {s \<in> set (so6_between d t (At t)). time2 s \<noteq> t}"
  by (auto simp: so6_at_def so6_between_def resolve_after_def intro: filter_cong)

theorem so6_at_then_between_witness:
  "so6_between (so6_at [row 1 ''AFR1'' 0 5 (0, 0, 0) (1, 1, 0), row 1 ''AFR1'' 5 9 (1, 1, 0) (2, 2, 0)] 5)
      5 (At 5) = [row 1 ''AFR1'' 5 9 (1, 1, 0) (2, 2, 0)]"
proof -
  have a: "so6_at [row 1 ''AFR1'' 0 5 (0, 0, 0) (1, 1, 0), row 1 ''AFR1'' 5 9 (1, 1, 0) (2, 2, 0)] 5 =
      [row 1 ''AFR1'' 5 9 (1, 1, 0) (2, 2, 0)]"
    by (simp add: so6_at_def row_def)
  have "so6_between
          (so6_at [row 1 ''AFR1'' 0 5 (0, 0, 0) (1, 1, 0), row 1 ''AFR1'' 5 9 (1, 1, 0) (2, 2, 0)] 5)
          5 (At 5) =
        so6_at [row 1 ''AFR1'' 0 5 (0, 0, 0) (1, 1, 0), row 1 ''AFR1'' 5 9 (1, 1, 0) (2, 2, 0)] 5"
    using so6_at_then_between
      [of "[row 1 ''AFR1'' 0 5 (0, 0, 0) (1, 1, 0), row 1 ''AFR1'' 5 9 (1, 1, 0) (2, 2, 0)]" 5]
    by blast
  with a show ?thesis by simp
qed

text \<open>
  The claim as stated fails: a row that ends at \<open>t\<close> is kept by \<open>between(t, t)\<close> and
  not by \<open>at(t)\<close>.
\<close>

theorem so6_at_between_differ:
  "set (so6_at [row 1 ''AFR1'' 0 5 (0, 0, 0) (1, 1, 0)] 5) \<noteq>
   set (so6_between [row 1 ''AFR1'' 0 5 (0, 0, 0) (1, 1, 0)] 5 (At 5))"
  by (simp add: so6_at_def so6_between_def resolve_after_def row_def)

section \<open>The bounding box\<close>

lemma quantize_round_down:
  assumes "quantize ROUND_DOWN x = Inr q"
  shows "if 0 \<le> x then decimal_value q \<le> x \<and> x < decimal_value q + 1 / 100
         else x \<le> decimal_value q \<and> decimal_value q - 1 / 100 < x"
proof -
  from assms have q: "q = rescale ROUND_DOWN x"
    by (simp add: quantize_def Let_def split: if_splits)
  show ?thesis
  proof (cases "0 \<le> x")
    case True
    with q have "q = \<lfloor>x * 100\<rfloor>" by simp
    then have "of_int q \<le> x * 100" "x * 100 < of_int q + 1" by linarith+
    with True show ?thesis by (simp add: decimal_value_def field_simps)
  next
    case False
    with q have "q = \<lceil>x * 100\<rceil>" by simp
    then have "x * 100 \<le> of_int q" "of_int q - 1 < x * 100" by linarith+
    with False show ?thesis by (simp add: decimal_value_def field_simps)
  qed
qed

lemma quantize_round_up:
  assumes "quantize ROUND_UP x = Inr q"
  shows "if 0 \<le> x then x \<le> decimal_value q \<and> decimal_value q - 1 / 100 < x
         else decimal_value q \<le> x \<and> x < decimal_value q + 1 / 100"
proof -
  from assms have q: "q = rescale ROUND_UP x"
    by (simp add: quantize_def Let_def split: if_splits)
  show ?thesis
  proof (cases "0 \<le> x")
    case True
    with q have "q = \<lceil>x * 100\<rceil>" by simp
    then have "x * 100 \<le> of_int q" "of_int q - 1 < x * 100" by linarith+
    with True show ?thesis by (simp add: decimal_value_def field_simps)
  next
    case False
    with q have "q = \<lfloor>x * 100\<rfloor>" by simp
    then have "of_int q \<le> x * 100" "x * 100 < of_int q + 1" by linarith+
    with False show ?thesis by (simp add: decimal_value_def field_simps)
  qed
qed

text \<open>
  On a positive edge the rounding goes outward: west \<open>2.004\<close> (the float, as a rational)
  becomes \<open>2.00\<close>, and east \<open>2.004\<close> becomes \<open>2.01\<close>.
\<close>

lemma quantize_positive_edge:
  "quantize ROUND_DOWN (4512606826625237 / 2251799813685248) = Inr 200 \<and>
   quantize ROUND_UP (4512606826625237 / 2251799813685248) = Inr 201"
  by code_simp

text \<open>
  Claim C5.  On the bounds that the comment in \<open>inside_bbox\<close> quotes,
  \<open>(-2.066666603088379, 42.366943359375, 4.491666793823242, 48.13333511352539)\<close>, given
  here as the rationals these floats are, the code rounds the west edge to \<open>-2.06\<close>,
  which lies east of the edge given: the rounded box does not contain the box.
\<close>

theorem rounded_bounds_west_inward:
  "rounded_bounds (- 2167057 / 1048576, 173535 / 4096, 2354927 / 524288, 12617865 / 262144) =
     Inr (- 206, 4236, 450, 4814) \<and>
   - 2167057 / 1048576 < decimal_value (- 206)"
  by code_simp






text \<open>
  The edges are compared as the floats the query reads.  On the bounds that the comment
  in \<open>inside_bbox\<close> quotes, the south edge \<open>42.36\<close> is read as the double just below
  \<open>42.36\<close>, and a row that starts at that latitude lies in the box.
\<close>

lemma bbox_query_on_edge:
  "query_literal 4236 = 2980820003365847 / 70368744177664 \<and>
   query_literal 4236 < decimal_value 4236 \<and>
   bbox_query (- 206, 4236, 450, 4814)
     (row 1 ''AFR1'' 0 5 (0, 2980820003365847 / 70368744177664, 0) (1, 43, 0))"
  by code_simp

text \<open>
  The whole of \<open>inside_bbox\<close> on those bounds and that row: the row is kept.
\<close>

lemma inside_bbox_keeps_edge_row:
  "inside_bbox [row 1 ''AFR1'' 0 5 (0, 2980820003365847 / 70368744177664, 0) (1, 43, 0)]
     (- 2167057 / 1048576, 173535 / 4096, 2354927 / 524288, 12617865 / 262144) =
   Inr [row 1 ''AFR1'' 0 5 (0, 2980820003365847 / 70368744177664, 0) (1, 43, 0)]"
  by code_simp




section \<open>Selecting the loader\<close>

lemma split_nonempty: "split c xs \<noteq> []"
  by (induction xs) (auto split: list.splits)

lemma tl_split:
  "tl (split c xs) = (case dropWhile (\<lambda>x. x \<noteq> c) xs of [] \<Rightarrow> [] | y # rest \<Rightarrow> split c rest)"
proof (induction xs)
  case Nil
  show ?case by simp
next
  case (Cons x xs)
  show ?case
  proof (cases "x = c")
    case True
    then show ?thesis by simp
  next
    case False
    obtain p ps where p: "split c xs = p # ps"
      using split_nonempty[of c xs] by (cases "split c xs") auto
    from False p have "tl (split c (x # xs)) = tl (split c xs)" by simp
    with False Cons.IH show ?thesis by simp
  qed
qed

lemma split_no_sep: "c \<notin> set xs \<Longrightarrow> split c xs = [xs]"
  by (induction xs) auto

lemma split_single: "split c xs = [s] \<Longrightarrow> xs = s"
  by (induction xs arbitrary: s) (auto split: if_splits list.splits simp: split_nonempty)

lemma split_Cons: "split c xs = a # ys \<Longrightarrow> ys \<noteq> [] \<Longrightarrow> \<exists>rest. xs = a @ c # rest \<and> split c rest = ys"
proof (induction xs arbitrary: a)
  case Nil then show ?case by simp
next
  case (Cons x xs)
  show ?case
  proof (cases "x = c")
    case True with Cons.prems show ?thesis by auto
  next
    case False
    with Cons.prems obtain p where p: "split c xs = p # ys" and a: "a = x # p"
      by (auto split: list.splits)
    from Cons.IH[OF p Cons.prems(2)] a show ?thesis by auto
  qed
qed



lemma split_eq_single: "split c xs = [s] \<longleftrightarrow> xs = s \<and> c \<notin> set s"
proof
  assume h: "split c xs = [s]"
  then have xs: "xs = s" by (rule split_single)
  have "c \<notin> set xs"
  proof
    assume "c \<in> set xs"
    then obtain ys zs where "xs = ys @ c # zs" "c \<notin> set ys" by (auto dest: split_list_first)
    then have "length (split c xs) \<ge> 2"
      by (induction ys arbitrary: xs) (auto split: list.splits simp: split_nonempty Suc_le_eq)
    with h show False by simp
  qed
  with xs show "xs = s \<and> c \<notin> set s" by simp
next
  assume "xs = s \<and> c \<notin> set s"
  then show "split c xs = [s]" by (simp add: split_no_sep)
qed

lemma split_eq_two:
  assumes "c \<notin> set a" "c \<notin> set b"
  shows "split c xs = [a, b] \<longleftrightarrow> xs = a @ c # b"
proof
  assume "split c xs = [a, b]"
  then obtain rest where "xs = a @ c # rest" "split c rest = [b]"
    by (auto dest: split_Cons)
  then show "xs = a @ c # b" by (simp add: split_eq_single)
next
  assume xs: "xs = a @ c # b"
  have "split c (a @ c # b) = a # split c b" using assms(1)
    by (induction a) auto
  with xs assms(2) show "split c xs = [a, b]" by (simp add: split_no_sep)
qed

lemma suffixes_not_dot:
  assumes "\<not> endswith_dot n"
  shows "suffixes n = (case dropWhile (\<lambda>c. c \<noteq> CHR ''.'') (lstrip_dots n) of
                         [] \<Rightarrow> [] | y # rest \<Rightarrow> map (\<lambda>s. CHR ''.'' # s) (split (CHR ''.'') rest))"
proof (cases "dropWhile (\<lambda>c. c \<noteq> CHR ''.'') (lstrip_dots n)")
  case Nil
  with assms show ?thesis by (simp only: suffixes_def tl_split if_False list.case list.map)
next
  case (Cons y rest)
  with assms show ?thesis by (simp only: suffixes_def tl_split if_False list.case)
qed

lemma dropWhile_hd: "dropWhile P xs = y # rest \<Longrightarrow> \<not> P y"
  using hd_dropWhile[of P xs] by auto

lemma last_dropWhile: "dropWhile P xs \<noteq> [] \<Longrightarrow> last (dropWhile P xs) = last xs"
  by (induction xs) (auto split: if_splits)

lemma endswith_dot_iff: "endswith_dot n \<longleftrightarrow> n \<noteq> [] \<and> last n = CHR ''.''"
  by (cases n rule: rev_cases) (auto simp: endswith_dot_def)

lemma extension_of_dotted:
  assumes "endswith_dot n" and e: "e = dropWhile (\<lambda>c. c \<noteq> CHR ''.'') (lstrip_dots n)"
  shows "e = [] \<or> last e = CHR ''.''"
proof (cases "e = []")
  case True then show ?thesis by simp
next
  case False
  with e have "last e = last (lstrip_dots n)" by (simp add: last_dropWhile)
  moreover from False e have "lstrip_dots n \<noteq> []" by auto
  then have "last (lstrip_dots n) = last n" unfolding lstrip_dots_def by (rule last_dropWhile)
  ultimately show ?thesis using assms(1) by (simp add: endswith_dot_iff)
qed

lemma map_dot_eq: "map (\<lambda>s. CHR ''.'' # s) xs = map (\<lambda>s. CHR ''.'' # s) ys \<longleftrightarrow> xs = ys"
  by (simp add: inj_on_def inj_map_eq_map)

lemma suffixes_cases:
  fixes n :: string
  defines "e \<equiv> dropWhile (\<lambda>c. c \<noteq> CHR ''.'') (lstrip_dots n)"
  shows "(suffixes n = [''.pkl'']) = (e = ''.pkl'')"
    and "(suffixes n = [''.so6'', ''.7z'']) = (e = ''.so6.7z'')"
    and "(suffixes n = [''.so6'']) = (e = ''.so6'')"
proof -
  have m1: "[''.pkl''] = map (\<lambda>s. CHR ''.'' # s) [''pkl'']" by simp
  have m2: "[''.so6'', ''.7z''] = map (\<lambda>s. CHR ''.'' # s) [''so6'', ''7z'']" by simp
  have m3: "[''.so6''] = map (\<lambda>s. CHR ''.'' # s) [''so6'']" by simp
  have two: "split (CHR ''.'') xs = [''so6'', ''7z''] \<longleftrightarrow> xs = ''so6.7z''" for xs
    using split_eq_two[of "CHR ''.''" "''so6''" "''7z''" xs] by simp
  show "(suffixes n = [''.pkl'']) = (e = ''.pkl'')"
    and "(suffixes n = [''.so6'', ''.7z'']) = (e = ''.so6.7z'')"
    and "(suffixes n = [''.so6'']) = (e = ''.so6'')"
  proof (atomize (full), cases "endswith_dot n")
    case True
    then have "suffixes n = []" by (simp add: suffixes_def)
    moreover from True have "e = [] \<or> last e = CHR ''.''"
      unfolding e_def by (rule extension_of_dotted) simp
    ultimately show "((suffixes n = [''.pkl'']) = (e = ''.pkl'')) \<and>
      ((suffixes n = [''.so6'', ''.7z'']) = (e = ''.so6.7z'')) \<and>
      ((suffixes n = [''.so6'']) = (e = ''.so6''))" by auto
  next
    case False
    note sfx = suffixes_not_dot[OF False, folded e_def]
    show "((suffixes n = [''.pkl'']) = (e = ''.pkl'')) \<and>
      ((suffixes n = [''.so6'', ''.7z'']) = (e = ''.so6.7z'')) \<and>
      ((suffixes n = [''.so6'']) = (e = ''.so6''))"
    proof (cases e)
      case Nil
      with sfx show ?thesis by simp
    next
      case (Cons y rest)
      then have y: "y = CHR ''.''" unfolding e_def by (auto dest: dropWhile_hd)
      from sfx Cons have s: "suffixes n = map (\<lambda>s. CHR ''.'' # s) (split (CHR ''.'') rest)" by simp
      show ?thesis
        unfolding s Cons y
        by (simp only: m1 m2 m3 map_dot_eq split_eq_single two) auto
    qed
  qed
qed

lemma split_append_sep: "split c (xs @ c # ys) = split c xs @ split c ys"
proof (induction xs)
  case Nil
  show ?case by simp
next
  case (Cons x xs)
  obtain p ps where p: "split c xs = p # ps"
    using split_nonempty [of c xs] by (cases "split c xs") auto
  with Cons.IH show ?case by simp
qed

lemma path_name_final:
  assumes "dir = [] \<or> last dir = CHR ''/''" and "CHR ''/'' \<notin> set n"
    and "n \<noteq> []" and "n \<noteq> ''.''"
  shows "path_name (dir @ n) = n"
proof (cases "dir = []")
  case True
  with assms show ?thesis by (simp add: path_name_def split_no_sep)
next
  case False
  with assms(1) obtain d where d: "dir = d @ [CHR ''/'']"
    by (cases dir rule: rev_cases) auto
  have "split (CHR ''/'') (dir @ n) = split (CHR ''/'') d @ [n]"
    unfolding d using assms(2) by (simp add: split_append_sep split_no_sep)
  with assms(3,4) show ?thesis by (simp add: path_name_def)
qed

lemma path_name_trailing_slash: "path_name (filename @ ''/'') = path_name filename"
proof -
  have "split (CHR ''/'') (filename @ ''/'') = split (CHR ''/'') filename @ [[]]"
    using split_append_sep [of "CHR ''/''" filename "[]"] by simp
  then show ?thesis by (simp add: path_name_def)
qed

lemma stem_with_iff:
  assumes ext: "ext = CHR ''.'' # rest"
  shows "dropWhile (\<lambda>c. c \<noteq> CHR ''.'') (lstrip_dots n) = ext \<longleftrightarrow> stem_with ext n"
proof
  assume e: "dropWhile (\<lambda>c. c \<noteq> CHR ''.'') (lstrip_dots n) = ext"
  define dots where "dots = takeWhile (\<lambda>c. c = CHR ''.'') n"
  define stem where "stem = takeWhile (\<lambda>c. c \<noteq> CHR ''.'') (lstrip_dots n)"
  have n: "n = dots @ lstrip_dots n"
    by (simp add: dots_def lstrip_dots_def)
  have l: "lstrip_dots n = stem @ ext"
    unfolding stem_def e [symmetric] by simp
  have "stem \<noteq> []"
  proof
    assume "stem = []"
    with l ext have "dropWhile (\<lambda>c. c = CHR ''.'') n = CHR ''.'' # rest"
      by (simp add: lstrip_dots_def)
    then have "\<not> (CHR ''.'' = CHR ''.'')" by (rule dropWhile_hd)
    then show False by simp
  qed
  moreover have "set dots \<subseteq> {CHR ''.''}"
    by (auto simp: dots_def dest: set_takeWhileD)
  moreover have "CHR ''.'' \<notin> set stem"
    by (auto simp: stem_def dest: set_takeWhileD)
  moreover from n l have "n = dots @ stem @ ext" by simp
  ultimately show "stem_with ext n"
    unfolding stem_with_def by blast
next
  assume "stem_with ext n"
  then obtain dots stem where n: "n = dots @ stem @ ext" and dots: "set dots \<subseteq> {CHR ''.''}"
    and stem: "stem \<noteq> []" "CHR ''.'' \<notin> set stem"
    unfolding stem_with_def by blast
  from stem obtain x xs where x: "stem = x # xs" "x \<noteq> CHR ''.''"
    by (cases stem) auto
  from dots have "dropWhile (\<lambda>c. c = CHR ''.'') (dots @ stem @ ext) =
      dropWhile (\<lambda>c. c = CHR ''.'') (stem @ ext)"
    by (intro dropWhile_append2) auto
  with x have l: "lstrip_dots n = stem @ ext"
    by (simp add: lstrip_dots_def n)
  from stem(2) have "dropWhile (\<lambda>c. c \<noteq> CHR ''.'') (stem @ ext) =
      dropWhile (\<lambda>c. c \<noteq> CHR ''.'') ext"
    by (intro dropWhile_append2) auto
  with l ext show "dropWhile (\<lambda>c. c \<noteq> CHR ''.'') (lstrip_dots n) = ext" by simp
qed

lemma stem_with_last: "stem_with ext n \<Longrightarrow> ext \<noteq> [] \<Longrightarrow> last n = last ext"
  by (auto simp: stem_with_def)

text \<open>
  Claim C7, as the code has it.  For a path whose final component is the file name
  \<open>n\<close>, \<open>parse_file\<close> compares the whole list of suffixes of \<open>n\<close>: it selects the
  snapshot loader exactly when \<open>n\<close>, leading dots aside, is a stem without dots, not
  empty, followed by \<open>.pkl\<close>; the archive loader exactly when it is such a stem followed
  by \<open>.so6.7z\<close>; the loader of the text format exactly when it is such a stem followed
  by \<open>.so6\<close>; and it raises \<open>ValueError\<close> on every other name, among them the names
  with a dot in their stem.
\<close>

theorem parse_file_by_suffixes:
  assumes "dir = [] \<or> last dir = CHR ''/''" and "CHR ''/'' \<notin> set n"
    and "n \<noteq> []" and "n \<noteq> ''.''"
  shows "(parse_file (dir @ n) = Inr Parse_pkl \<longleftrightarrow> stem_with ''.pkl'' n) \<and>
         (parse_file (dir @ n) = Inr Parse_so6_7z \<longleftrightarrow> stem_with ''.so6.7z'' n) \<and>
         (parse_file (dir @ n) = Inr Parse_so6 \<longleftrightarrow> stem_with ''.so6'' n) \<and>
         (parse_file (dir @ n) = Inl ValueError \<longleftrightarrow>
            \<not> stem_with ''.pkl'' n \<and> \<not> stem_with ''.so6.7z'' n \<and> \<not> stem_with ''.so6'' n)"
proof -
  have name: "path_name (dir @ n) = n"
    using assms by (rule path_name_final)
  have pkl: "(suffixes n = [''.pkl'']) = stem_with ''.pkl'' n"
    by (simp only: suffixes_cases stem_with_iff [of "''.pkl''" "''pkl''"])
  have a7z: "(suffixes n = [''.so6'', ''.7z'']) = stem_with ''.so6.7z'' n"
    by (simp only: suffixes_cases stem_with_iff [of "''.so6.7z''" "''so6.7z''"])
  have so6: "(suffixes n = [''.so6'']) = stem_with ''.so6'' n"
    by (simp only: suffixes_cases stem_with_iff [of "''.so6''" "''so6''"])
  have excl: "\<not> (stem_with ''.pkl'' n \<and> stem_with ''.so6.7z'' n)"
    "\<not> (stem_with ''.pkl'' n \<and> stem_with ''.so6'' n)"
    "\<not> (stem_with ''.so6.7z'' n \<and> stem_with ''.so6'' n)"
    by (auto dest!: stem_with_last)
  show ?thesis
    unfolding parse_file_def Let_def name pkl a7z so6 using excl by auto
qed

theorem parse_file_by_suffixes_witness:
  "parse_file (''data/'' @ ''20180101.so6.7z'') = Inr Parse_so6_7z \<and>
   parse_file ([] @ ''.hidden.pkl'') = Inr Parse_pkl \<and>
   parse_file (''data/'' @ ''flights.csv'') = Inl ValueError"
proof -
  have a: "stem_with ''.so6.7z'' ''20180101.so6.7z''"
    unfolding stem_with_def
    by (rule exI [of _ "[]"], rule exI [of _ "''20180101''"]) simp
  have b: "stem_with ''.pkl'' ''.hidden.pkl''"
    unfolding stem_with_def
    by (rule exI [of _ "''.''"], rule exI [of _ "''hidden''"]) simp
  have c: "\<not> stem_with ''.pkl'' ''flights.csv'' \<and> \<not> stem_with ''.so6.7z'' ''flights.csv'' \<and>
      \<not> stem_with ''.so6'' ''flights.csv''"
    by (auto dest!: stem_with_last)
  from parse_file_by_suffixes [of "''data/''" "''20180101.so6.7z''"] a
  have 1: "parse_file (''data/'' @ ''20180101.so6.7z'') = Inr Parse_so6_7z" by simp
  from parse_file_by_suffixes [of "[]" "''.hidden.pkl''"] b
  have 2: "parse_file ([] @ ''.hidden.pkl'') = Inr Parse_pkl" by simp
  from parse_file_by_suffixes [of "''data/''" "''flights.csv''"] c
  have 3: "parse_file (''data/'' @ ''flights.csv'') = Inl ValueError" by simp
  from 1 2 3 show ?thesis by blast
qed

text \<open>
  The claim as stated fails: the extension of \<open>flights.v2.pkl\<close> is \<open>.pkl\<close>, and the
  code refuses the file, since its suffixes are \<open>.v2\<close> and \<open>.pkl\<close>; likewise
  \<open>2018.01.01.so6\<close>.
\<close>

theorem parse_file_refuses_dotted_stem:
  "extension_spec ''flights.v2.pkl'' = ''.pkl'' \<and>
   parse_file ''flights.v2.pkl'' = Inl ValueError \<and>
   extension_spec ''2018.01.01.so6'' = ''.so6'' \<and>
   parse_file ''2018.01.01.so6'' = Inl ValueError"
  by (simp add: extension_spec_def parse_file_def suffixes_def endswith_dot_def path_name_def
      lstrip_dots_def)

text \<open>A trailing slash does not change the file name, hence not the loader.\<close>

lemma parse_file_trailing_slash: "parse_file (filename @ ''/'') = parse_file filename"
  by (simp only: parse_file_def path_name_trailing_slash)

section \<open>The altitude limits of a volume\<close>

text \<open>
  What the code does on the limits: the default for an absent element and for a text
  that does not start with three digits, and Python's \<open>float\<close> of the text otherwise
  (which raises on a text such as \<open>123abc\<close>).
\<close>

lemma re_match_d3_iff:
  "re_match_d3 s \<longleftrightarrow> 3 \<le> length s \<and> is_digit (s ! 0) \<and> is_digit (s ! 1) \<and> is_digit (s ! 2)"
proof (cases s)
  case Nil
  then show ?thesis by simp
next
  case s1: (Cons a s')
  show ?thesis
  proof (cases s')
    case Nil
    with s1 show ?thesis by simp
  next
    case s2: (Cons b s'')
    show ?thesis
    proof (cases s'')
      case Nil
      with s1 s2 show ?thesis by simp
    next
      case (Cons c rest)
      with s1 s2 show ?thesis by (simp add: numeral_2_eq_2)
    qed
  qed
qed

lemma limit_of_cases:
  "limit_of py_float dflt None = Inr dflt"
  "elem_text el = Some s \<Longrightarrow> re_match_d3 s \<Longrightarrow> limit_of py_float dflt (Some el) = py_float s"
  "elem_text el = Some s \<Longrightarrow> \<not> re_match_d3 s \<Longrightarrow> limit_of py_float dflt (Some el) = Inr dflt"
  by (simp_all add: limit_of_def)

text \<open>
  Claim C8.  A limit element that is present and has no text, as \<open><aixm:upperLimit/>\<close>,
  has a text that does not begin with three digits; the code does not give the default
  for it, it raises \<open>TypeError\<close>, for the upper limit and for the lower limit alike.
\<close>

theorem limit_of_empty_element:
  "upper_limit py_float (Some \<lparr>elem_text = None\<rparr>) = Inl TypeError \<and>
   lower_limit py_float (Some \<lparr>elem_text = None\<rparr>) = Inl TypeError"
  by (simp add: upper_limit_def lower_limit_def limit_of_def)

section \<open>A flight and a sector\<close>








section \<open>Slicing by altitude\<close>

lemma footprint_slice_step:
  "footprint (slice_step polyalt rs (low, up)) =
     footprint rs \<union> cascaded_union (map polygon (filter (matches low up) polyalt))"
proof (cases "rs \<noteq> [] \<and> cascaded_union (map polygon (filter (matches low up) polyalt)) = polygon (last rs)")
  case True
  then obtain ys l where rs: "rs = ys @ [l]" by (cases rs rule: rev_cases) auto
  with True show ?thesis by (auto simp: footprint_def Let_def)
next
  case False
  then show ?thesis by (auto simp: footprint_def Let_def)
qed

lemma footprint_foldl:
  "footprint (foldl (slice_step polyalt) rs ps) =
     footprint rs \<union> (\<Union>(low, up) \<in> set ps. cascaded_union (map polygon (filter (matches low up) polyalt)))"
proof (induction ps arbitrary: rs)
  case Nil
  show ?case by simp
next
  case (Cons p ps)
  obtain low up where p: "p = (low, up)" by (cases p)
  show ?case unfolding p by (simp only: foldl_Cons Cons.IH footprint_slice_step) auto
qed

lemma slice_step_inv:
  assumes "ascending_disjoint rs" "\<forall>b \<in> set rs. upper b \<le> low"
    and "rs \<noteq> [] \<longrightarrow> upper (last rs) = low" and "low < up"
  shows "ascending_disjoint (slice_step polyalt rs (low, up)) \<and>
         (\<forall>b \<in> set (slice_step polyalt rs (low, up)). upper b \<le> up) \<and>
         slice_step polyalt rs (low, up) \<noteq> [] \<and>
         upper (last (slice_step polyalt rs (low, up))) = up"
proof (cases "rs \<noteq> [] \<and> cascaded_union (map polygon (filter (matches low up) polyalt)) = polygon (last rs)")
  case True
  then obtain ys l where rs: "rs = ys @ [l]" by (cases rs rule: rev_cases) auto
  from assms rs have l: "upper l = low" "lower l < upper l" "\<forall>b \<in> set ys. upper b \<le> lower l"
    "sorted_wrt (\<lambda>b c. upper b \<le> lower c) ys" "list_all (\<lambda>b. lower b < upper b) ys"
    "\<forall>b \<in> set ys. upper b \<le> low"
    by (auto simp: ascending_disjoint_def sorted_wrt_append)
  have step: "slice_step polyalt rs (low, up) = ys @ [\<lparr>polygon = polygon l, lower = lower l, upper = up\<rparr>]"
    using True rs by (simp add: Let_def)
  from l assms(4) show ?thesis unfolding step
    by (auto simp: ascending_disjoint_def sorted_wrt_append intro: order.strict_trans less_imp_le order.trans)
next
  case False
  then have step: "slice_step polyalt rs (low, up) =
      rs @ [\<lparr>polygon = cascaded_union (map polygon (filter (matches low up) polyalt)), lower = low, upper = up\<rparr>]"
    by (auto simp: Let_def)
  from assms show ?thesis unfolding step
    by (auto simp: ascending_disjoint_def sorted_wrt_append intro: less_imp_le order.trans)
qed

lemma foldl_inv:
  assumes "pair_chain u ps" "ascending_disjoint rs" "\<forall>b \<in> set rs. upper b \<le> u"
    and "rs \<noteq> [] \<longrightarrow> upper (last rs) = u"
  shows "ascending_disjoint (foldl (slice_step polyalt) rs ps)"
  using assms
proof (induction ps arbitrary: u rs)
  case Nil
  then show ?case by simp
next
  case (Cons p ps)
  obtain low up where p: "p = (low, up)" by (cases p)
  from Cons.prems(1) p have c: "low = u" "low < up" "pair_chain up ps" by auto
  from slice_step_inv[of rs low up polyalt] Cons.prems c
  have inv: "ascending_disjoint (slice_step polyalt rs (low, up))"
    "\<forall>b \<in> set (slice_step polyalt rs (low, up)). upper b \<le> up"
    "slice_step polyalt rs (low, up) \<noteq> [] \<longrightarrow> upper (last (slice_step polyalt rs (low, up))) = up"
    by blast+
  from Cons.IH[OF c(3) inv] show ?case by (simp only: p foldl_Cons)
qed

lemma zip_tl_chain: "sorted_wrt (<) (x # xs) \<Longrightarrow> pair_chain x (zip (x # xs) xs)"
  by (induction xs arbitrary: x) auto

lemma consecutive_pair:
  fixes l u :: ext
  assumes "sorted_wrt (<) xs" "l \<in> set xs" "u \<in> set xs" "l < u"
  shows "\<exists>(a, b) \<in> set (zip xs (tl xs)). l \<le> a \<and> a < b \<and> b \<le> u"
  using assms
proof (induction xs)
  case Nil
  then show ?case by simp
next
  case (Cons x xs)
  show ?case
  proof (cases "l = x")
    case True
    with Cons.prems have "u \<in> set xs" by auto
    then obtain y ys where xs: "xs = y # ys" by (cases xs) auto
    with Cons.prems(1) \<open>u \<in> set xs\<close> have "x < y" "y \<le> u" by auto
    with True xs show ?thesis by auto
  next
    case False
    with Cons.prems have l: "l \<in> set xs" by auto
    with Cons.prems have "x < l" by auto
    with Cons.prems have u: "u \<in> set xs" by auto
    from Cons.prems(1) have "sorted_wrt (<) xs" by simp
    from Cons.IH[OF this l u Cons.prems(4)]
    obtain a b where ab: "(a, b) \<in> set (zip xs (tl xs))" "l \<le> a" "a < b" "b \<le> u" by auto
    from ab(1) have "(a, b) \<in> set (zip (x # xs) xs)"
      by (cases xs) (auto dest: set_zip_leftD)
    with ab show ?thesis by auto
  qed
qed


lemma distinct_somes:
  "distinct xs \<Longrightarrow> distinct (concat (map (\<lambda>a. case a of None \<Rightarrow> [] | Some x \<Rightarrow> [x]) xs))"
  by (induction xs) (auto split: option.splits)

lemma set_somes:
  "set (concat (map (\<lambda>a. case a of None \<Rightarrow> [] | Some x \<Rightarrow> [x]) xs)) = {x. Some x \<in> set xs}"
  by (induction xs) (auto split: option.splits)

lemma set_altitudes: "set (altitudes polyalt) = (\<Union>b \<in> set polyalt. {lower b, upper b})"
  by (auto simp: altitudes_def)

lemma zip_tl_strict:
  fixes xs :: "ext list"
  shows "sorted_wrt (<) xs \<Longrightarrow> (a, b) \<in> set (zip xs (tl xs)) \<Longrightarrow> a < b"
proof (induction xs)
  case Nil
  then show ?case by simp
next
  case (Cons x xs)
  then show ?case by (cases xs) auto
qed

lemma cascaded_result:
  assumes "cascaded_union_with_alt polyalt = Inr out"
  shows "ascending_disjoint out \<and> footprint out = footprint (filter proper_band polyalt)"
proof (cases "altitudes polyalt = [None]")
  case True
  with assms have out: "out = [\<lparr>polygon = cascaded_union (map polygon polyalt), lower = MInf, upper = PInf\<rparr>]"
    by (simp add: cascaded_union_with_alt_def)
  have "proper_band b" if "b \<in> set polyalt" for b
  proof -
    from that have "lower b \<in> set (altitudes polyalt)" "upper b \<in> set (altitudes polyalt)"
      by (auto simp: set_altitudes)
    with True have "lower b = None" "upper b = None" by simp_all
    then show ?thesis by (simp add: proper_band_def)
  qed
  then have "filter proper_band polyalt = polyalt" by (simp add: filter_id_conv)
  then show ?thesis unfolding out
    by (simp add: ascending_disjoint_def footprint_def cascaded_union_def less_ext_def)
next
  case False
  define slices where "slices = sort (concat (map (\<lambda>a. case a of None \<Rightarrow> [] | Some x \<Rightarrow> [x]) (altitudes polyalt)))"
  from assms False have none: "None \<notin> set (altitudes polyalt)"
    and out: "out = foldl (slice_step polyalt) [] (zip slices (tl slices))"
    by (auto simp: cascaded_union_with_alt_def Let_def slices_def split: if_splits)
  have strict: "sorted_wrt (<) slices"
    unfolding slices_def
    by (simp add: strict_sorted_iff distinct_somes altitudes_def)
  have set_slices: "set slices = {x. Some x \<in> set (altitudes polyalt)}"
    unfolding slices_def by (simp only: set_sort set_somes)
  have asc: "ascending_disjoint out"
  proof (cases slices)
    case Nil
    then show ?thesis by (simp add: out ascending_disjoint_def)
  next
    case (Cons x xs)
    with strict have "pair_chain x (zip slices (tl slices))"
      by (simp add: zip_tl_chain)
    then show ?thesis unfolding out
      by (rule foldl_inv) (simp_all add: ascending_disjoint_def)
  qed
  have fp: "footprint out =
      (\<Union>(low, up) \<in> set (zip slices (tl slices)). cascaded_union (map polygon (filter (matches low up) polyalt)))"
    unfolding out footprint_foldl by (simp add: footprint_def)
  have sub: "footprint out \<subseteq> footprint (filter proper_band polyalt)"
  proof
    fix x assume "x \<in> footprint out"
    then obtain low up b where p: "(low, up) \<in> set (zip slices (tl slices))"
      and b: "b \<in> set polyalt" "matches low up b" "x \<in> polygon b"
      unfolding fp by (auto simp: cascaded_union_def)
    from strict p have "low < up" by (rule zip_tl_strict)
    with b(2) have "proper_band b"
      by (auto simp: matches_def proper_band_def split: option.splits)
    with b show "x \<in> footprint (filter proper_band polyalt)"
      by (auto simp: footprint_def)
  qed
  have sup: "footprint (filter proper_band polyalt) \<subseteq> footprint out"
  proof
    fix x assume "x \<in> footprint (filter proper_band polyalt)"
    then obtain b where b: "b \<in> set polyalt" "proper_band b" "x \<in> polygon b"
      by (auto simp: footprint_def)
    from b(1) have mem: "lower b \<in> set (altitudes polyalt)" "upper b \<in> set (altitudes polyalt)"
      by (auto simp: set_altitudes)
    with none have "lower b \<noteq> None" "upper b \<noteq> None"
      by metis+
    then obtain l u where lu: "lower b = Some l" "upper b = Some u" by auto
    with b(2) have "l < u" by (simp add: proper_band_def)
    moreover from lu mem have "l \<in> set slices" "u \<in> set slices"
      by (simp_all add: set_slices)
    ultimately obtain low up where p: "(low, up) \<in> set (zip slices (tl slices))"
      "l \<le> low" "low < up" "up \<le> u"
      using consecutive_pair[OF strict] by blast
    with lu have "matches low up b" by (auto simp: matches_def)
    with b p(1) show "x \<in> footprint out"
      unfolding fp by (auto simp: cascaded_union_def)
  qed
  from asc sub sup show ?thesis by auto
qed

lemma remdups_constant:
  assumes "xs \<noteq> []" and "\<forall>x \<in> set xs. x = a"
  shows "remdups xs = [a]"
  using assms
proof (induction xs)
  case Nil
  then show ?case by simp
next
  case (Cons x xs)
  from Cons.prems(2) have x: "x = a" by simp
  show ?case
  proof (cases "xs = []")
    case True
    with x show ?thesis by simp
  next
    case False
    with Cons have r: "remdups xs = [a]" by simp
    from False obtain y ys where "xs = y # ys" by (cases xs) auto
    with Cons.prems(2) have "a \<in> set xs" by simp
    with r x show ?thesis by simp
  qed
qed

lemma cascaded_returns:
  assumes "list_all (\<lambda>b. lower b \<noteq> None \<and> upper b \<noteq> None) polyalt \<or>
           list_all (\<lambda>b. lower b = None \<and> upper b = None) polyalt"
  shows "\<exists>out. cascaded_union_with_alt polyalt = Inr out"
proof (cases "None \<in> set (altitudes polyalt)")
  case False
  then show ?thesis by (simp add: cascaded_union_with_alt_def Let_def)
next
  case True
  then obtain b where b: "b \<in> set polyalt" "lower b = None \<or> upper b = None"
    by (auto simp: set_altitudes)
  with assms have allnone: "list_all (\<lambda>b. lower b = None \<and> upper b = None) polyalt"
    by (auto simp: list_all_iff)
  from b(1) have "concat (map (\<lambda>b. [lower b, upper b]) polyalt) \<noteq> []"
    by (cases polyalt) auto
  moreover from allnone have "\<forall>x \<in> set (concat (map (\<lambda>b. [lower b, upper b]) polyalt)). x = None"
    by (auto simp: list_all_iff)
  ultimately have "altitudes polyalt = [None]"
    unfolding altitudes_def by (rule remdups_constant)
  then show ?thesis by (simp add: cascaded_union_with_alt_def)
qed

lemma ascending_disjoint_pairwise:
  "ascending_disjoint out \<Longrightarrow> i < j \<Longrightarrow> j < length out \<Longrightarrow> upper (out ! i) \<le> lower (out ! j)"
  by (simp add: ascending_disjoint_def sorted_wrt_iff_nth_less)

text \<open>
  Claim C2, as the code has it.  Whenever \<open>cascaded_union_with_alt\<close> returns, its bands
  are in ascending altitude order and pairwise disjoint in altitude (of two bands the
  earlier ends no higher than the later starts, and each has its lower limit below its
  upper limit), and the union of their footprints is the union of the footprints of the
  input bands that span some altitude, the lower limit below the upper limit (or no
  limits at all); so it is the union of all input footprints when every input band spans
  some altitude.  It returns when the limits of the input are all numbers or all \<open>None\<close>.
\<close>

theorem cascaded_union_with_alt_slices:
  "(cascaded_union_with_alt polyalt = Inr out \<longrightarrow>
      ascending_disjoint out \<and>
      footprint out = footprint (filter proper_band polyalt) \<and>
      (list_all proper_band polyalt \<longrightarrow> footprint out = footprint polyalt)) \<and>
   (list_all (\<lambda>b. lower b \<noteq> None \<and> upper b \<noteq> None) polyalt \<or>
    list_all (\<lambda>b. lower b = None \<and> upper b = None) polyalt \<longrightarrow>
      (\<exists>out'. cascaded_union_with_alt polyalt = Inr out'))"
proof (intro conjI impI)
  assume r: "cascaded_union_with_alt polyalt = Inr out"
  from cascaded_result [OF r] show "ascending_disjoint out"
    and eq: "footprint out = footprint (filter proper_band polyalt)"
    by simp_all
  assume "list_all proper_band polyalt"
  then have "filter proper_band polyalt = polyalt"
    by (simp add: filter_id_conv list_all_iff)
  with eq show "footprint out = footprint polyalt" by simp
next
  assume "list_all (\<lambda>b. lower b \<noteq> None \<and> upper b \<noteq> None) polyalt \<or>
    list_all (\<lambda>b. lower b = None \<and> upper b = None) polyalt"
  then show "\<exists>out'. cascaded_union_with_alt polyalt = Inr out'"
    by (rule cascaded_returns)
qed

theorem cascaded_union_with_alt_slices_witness:
  "cascaded_union_with_alt
     [\<lparr>polygon = {0 :: nat}, lower = Some (Fin 0), upper = Some (Fin 100)\<rparr>,
      \<lparr>polygon = {1}, lower = Some (Fin 50), upper = Some (Fin 200)\<rparr>,
      \<lparr>polygon = {2}, lower = Some (Fin 100), upper = Some (Fin 100)\<rparr>] =
     Inr [\<lparr>polygon = {0}, lower = Fin 0, upper = Fin 50\<rparr>,
          \<lparr>polygon = {0, 1}, lower = Fin 50, upper = Fin 100\<rparr>,
          \<lparr>polygon = {1}, lower = Fin 100, upper = Fin 200\<rparr>] \<and>
   ascending_disjoint
     [\<lparr>polygon = {0 :: nat}, lower = Fin 0, upper = Fin 50\<rparr>,
      \<lparr>polygon = {0, 1}, lower = Fin 50, upper = Fin 100\<rparr>,
      \<lparr>polygon = {1}, lower = Fin 100, upper = Fin 200\<rparr>] \<and>
   footprint
     [\<lparr>polygon = {0 :: nat}, lower = Fin 0, upper = Fin 50\<rparr>,
      \<lparr>polygon = {0, 1}, lower = Fin 50, upper = Fin 100\<rparr>,
      \<lparr>polygon = {1}, lower = Fin 100, upper = Fin 200\<rparr>] =
   footprint (filter proper_band
     [\<lparr>polygon = {0 :: nat}, lower = Some (Fin 0), upper = Some (Fin 100)\<rparr>,
      \<lparr>polygon = {1}, lower = Some (Fin 50), upper = Some (Fin 200)\<rparr>,
      \<lparr>polygon = {2}, lower = Some (Fin 100), upper = Some (Fin 100)\<rparr>])"
proof -
  have r: "cascaded_union_with_alt
     [\<lparr>polygon = {0 :: nat}, lower = Some (Fin 0), upper = Some (Fin 100)\<rparr>,
      \<lparr>polygon = {1}, lower = Some (Fin 50), upper = Some (Fin 200)\<rparr>,
      \<lparr>polygon = {2}, lower = Some (Fin 100), upper = Some (Fin 100)\<rparr>] =
     Inr [\<lparr>polygon = {0}, lower = Fin 0, upper = Fin 50\<rparr>,
          \<lparr>polygon = {0, 1}, lower = Fin 50, upper = Fin 100\<rparr>,
          \<lparr>polygon = {1}, lower = Fin 100, upper = Fin 200\<rparr>]"
    by (simp add: cascaded_union_with_alt_def altitudes_def matches_def cascaded_union_def
        insert_commute)
  from cascaded_union_with_alt_slices
    [of "[\<lparr>polygon = {0 :: nat}, lower = Some (Fin 0), upper = Some (Fin 100)\<rparr>,
          \<lparr>polygon = {1}, lower = Some (Fin 50), upper = Some (Fin 200)\<rparr>,
          \<lparr>polygon = {2}, lower = Some (Fin 100), upper = Some (Fin 100)\<rparr>]"
        "[\<lparr>polygon = {0}, lower = Fin 0, upper = Fin 50\<rparr>,
          \<lparr>polygon = {0, 1}, lower = Fin 50, upper = Fin 100\<rparr>,
          \<lparr>polygon = {1}, lower = Fin 100, upper = Fin 200\<rparr>]"] r
  show ?thesis by blast
qed

text \<open>
  The claim as stated fails: a band whose lower and upper limit coincide lies in no
  slice, and here no other band covers its footprint, so the union of the output
  footprints is smaller than the union of the input footprints.
\<close>

theorem cascaded_union_with_alt_drops_flat_band:
  "cascaded_union_with_alt
     [\<lparr>polygon = {0 :: nat}, lower = Some (Fin 0), upper = Some (Fin 200)\<rparr>,
      \<lparr>polygon = {1}, lower = Some (Fin 100), upper = Some (Fin 100)\<rparr>] =
     Inr [\<lparr>polygon = {0}, lower = Fin 0, upper = Fin 200\<rparr>] \<and>
   footprint [\<lparr>polygon = {0 :: nat}, lower = Fin 0, upper = Fin 200\<rparr>] \<noteq>
   footprint [\<lparr>polygon = {0 :: nat}, lower = Some (Fin 0), upper = Some (Fin 200)\<rparr>,
      \<lparr>polygon = {1}, lower = Some (Fin 100), upper = Some (Fin 100)\<rparr>]"
  by (simp add: cascaded_union_with_alt_def altitudes_def matches_def cascaded_union_def
      footprint_def)

section \<open>A part of a flight\<close>

text \<open>
  What \<open>Flight.between\<close> does when both times lie strictly inside the span of a flight
  whose times are in order: the result starts at \<open>t0\<close> with the point \<open>at(t0)\<close> and
  stops at \<open>t1\<close> with the point \<open>at(t1)\<close>.
\<close>

lemma make_rows_cols:
  assumes "length as = length ps" "length bs = length ps"
  shows "map time1 (make_rows m ps as bs) = as \<and> map time2 (make_rows m ps as bs) = bs \<and>
         map p1 (make_rows m ps as bs) = map fst ps \<and> map p2 (make_rows m ps as bs) = map snd ps"
  using assms
proof (induction ps arbitrary: as bs)
  case Nil
  then show ?case by simp
next
  case (Cons p ps)
  obtain a b where p: "p = (a, b)" by (cases p)
  from Cons.prems obtain ta as' tb bs' where ab: "as = ta # as'" "bs = tb # bs'"
    by (cases as; cases bs) auto
  with Cons.prems have "length as' = length ps" "length bs' = length ps" by simp_all
  from Cons.IH[OF this] show ?case unfolding p ab by (simp add: p1_def p2_def)
qed

lemma sorted_Min_hd: "sorted xs \<Longrightarrow> xs \<noteq> [] \<Longrightarrow> Min (set xs) = hd xs"
  by (cases xs) (auto intro!: Min_eqI)

lemma sorted_Max_last: "sorted xs \<Longrightarrow> xs \<noteq> [] \<Longrightarrow> Max (set xs) = last xs"
  by (cases xs rule: rev_cases) (auto intro!: Max_eqI simp: sorted_append)

lemma flight_between_inside:
  assumes f: "f \<noteq> []" and srt: "sorted (flight_times f)"
    and s: "start f = Inr s" and e: "stop f = Inr e"
    and lt: "s < t0" "t0 < t1" "t1 < e"
  shows "\<exists>g a b. flight_between interp f t0 (At t1) = Inr g \<and> g \<noteq> [] \<and>
           start g = Inr t0 \<and> stop g = Inr t1 \<and>
           flight_at interp f t0 = Inr a \<and> p1 (hd g) = a \<and> time1 (hd g) = t0 \<and>
           flight_at interp f t1 = Inr b \<and> p2 (last g) = b \<and> time2 (last g) = t1"
proof -
  obtain m rest where fm: "f = m # rest" using f by (cases f) auto
  have tne: "flight_times f \<noteq> []" using f by (simp add: flight_times_def)
  from s e tne have se: "s = Min (set (flight_times f))" "e = Max (set (flight_times f))"
    by (simp_all add: start_def stop_def)
  with srt tne have hl: "hd (flight_times f) = s" "last (flight_times f) = e"
    by (simp_all add: sorted_Min_hd sorted_Max_last)
  define a where "a = interp (zip (flight_times f) (coords f)) t0"
  define b where "b = interp (zip (flight_times f) (coords f)) t1"
  from lt se have b0: "\<not> (t0 < Min (set (flight_times f)) \<or> Max (set (flight_times f)) < t0)"
    and b1: "\<not> (t1 < Min (set (flight_times f)) \<or> Max (set (flight_times f)) < t1)"
    by linarith+
  have at0: "flight_at interp f t0 = Inr a"
    by (simp only: flight_at_def Let_def tne b0 if_False a_def)
  have at1: "flight_at interp f t1 = Inr b"
    by (simp only: flight_at_def Let_def tne b1 if_False b_def)
  define index where "index = filter (\<lambda>(ti, c). t0 < ti \<and> ti < t1) (zip (flight_times f) (coords f))"
  define nd where "nd = a # map snd index @ [b]"
  define g where "g = make_rows m (zip (butlast nd) (tl nd)) (t0 # map fst index) (map fst index @ [t1])"
  have bl: "butlast nd = a # map snd index" "tl nd = map snd index @ [b]"
    by (simp_all add: nd_def butlast_append)
  have len: "length (t0 # map fst index) = length (zip (butlast nd) (tl nd))"
    "length (map fst index @ [t1]) = length (zip (butlast nd) (tl nd))"
    by (simp_all add: bl)
  have sb: "stack_before interp f t0 (map snd index, t0 # map fst index, map fst index @ [t1]) =
      Inr (a # map snd index, t0 # map fst index, map fst index @ [t1])"
    using lt(1) by (simp add: stack_before_def hl at0 bind_err_def)
  have sa: "stack_after interp f t1 (a # map snd index, t0 # map fst index, map fst index @ [t1]) =
      Inr (nd, t0 # map fst index, map fst index @ [t1])"
    using lt(3) by (simp add: stack_after_def hl at1 bind_err_def nd_def)
  have mf: "make_frame m nd (t0 # map fst index) (map fst index @ [t1]) = Inr g"
    using len by (simp only: make_frame_def Let_def g_def simp_thms if_False)
  have res: "flight_between interp f t0 (At t1) = Inr g"
    unfolding flight_between_def resolve_after_def Let_def time_or_delta.case index_def[symmetric]
    using sb sa mf unfolding fm by (simp add: bind_err_def)
  note cols = make_rows_cols[OF len, of m, folded g_def]
  from cols have gt1: "map time1 g = t0 # map fst index" and gt2: "map time2 g = map fst index @ [t1]"
    and gp1: "map p1 g = map fst (zip (butlast nd) (tl nd))" and gp2: "map p2 g = map snd (zip (butlast nd) (tl nd))"
    by simp_all
  from gt1 have gne: "g \<noteq> []" by auto
  have zl: "length (butlast nd) = length (tl nd)" by (simp add: bl)
  from gp1 zl have gp1': "map p1 g = a # map snd index" by (simp add: bl)
  from gp2 zl have gp2': "map p2 g = map snd index @ [b]" by (simp add: bl)
  have h1: "time1 (hd g) = t0" "p1 (hd g) = a"
    using gt1 gp1' gne by (cases g; simp)+
  have l2: "time2 (last g) = t1" "p2 (last g) = b"
    using gt2 gp2' gne by (cases g rule: rev_cases; simp)+
  have tg: "flight_times g = t0 # map fst index @ [t1]"
    using gne gt1 l2 by (simp add: flight_times_def)
  have inb: "\<forall>x \<in> set (map fst index). t0 < x \<and> x < t1"
    by (auto simp: index_def)
  have "Min (set (flight_times g)) = t0" unfolding tg
    using inb lt by (intro Min_eqI) (auto intro: less_imp_le)
  moreover have "Max (set (flight_times g)) = t1" unfolding tg
    using inb lt by (intro Max_eqI) (auto intro: less_imp_le)
  ultimately have "start g = Inr t0" "stop g = Inr t1"
    using tg by (simp_all add: start_def stop_def)
  with res gne at0 at1 h1 l2 show ?thesis by blast
qed

text \<open>
  Claim C6.  On a flight of one segment from time 0 to time 10, \<open>between(5, 10)\<close> has
  its first time strictly inside the span and its second on the end of the span.  The code
  returns a flight without any row: there is no end point at time 5 with the coordinates
  of \<open>at(5)\<close> in it.
\<close>

theorem flight_between_loses_tail:
  "flight_between linear_interp [row 1 ''AFR1'' 0 10 (0, 0, 0) (10, 10, 100)] 5 (At 10) = Inr [] \<and>
   flight_at linear_interp [row 1 ''AFR1'' 0 10 (0, 0, 0) (10, 10, 100)] 5 = Inr (5, 5, 50) \<and>
   start [row 1 ''AFR1'' 0 10 (0, 0, 0) (10, 10, 100)] = Inr 0 \<and>
   stop [row 1 ''AFR1'' 0 10 (0, 0, 0) (10, 10, 100)] = Inr 10"
  by (simp add: flight_between_def flight_at_def start_def stop_def flight_times_def coords_def
      p1_def p2_def resolve_after_def bind_err_def make_frame_def lerp_def row_def
      stack_before_def stack_after_def)

text \<open>
  The same at the other end, and on the whole span: \<open>between(0, 5)\<close> on this flight and
  \<open>between(0, 20)\<close> on a flight of two segments return no row either.
\<close>

lemma flight_between_loses_head:
  "flight_between linear_interp [row 1 ''AFR1'' 0 10 (0, 0, 0) (10, 10, 100)] 0 (At 5) = Inr [] \<and>
   flight_between linear_interp
     [row 1 ''AFR1'' 0 10 (0, 0, 0) (10, 10, 100), row 1 ''AFR1'' 10 20 (10, 10, 100) (20, 10, 200)]
     0 (At 20) = Inr []"
  by (simp add: flight_between_def flight_at_def flight_times_def coords_def
      p1_def p2_def resolve_after_def bind_err_def make_frame_def lerp_def row_def
      stack_before_def stack_after_def)

end
